theory Spec2Isabelle
  imports Main
begin

section \<open>Conway's Game of Life on a double-buffered torus\<close>

text \<open>
  The development embeds the class template \<^verbatim>\<open>ConwaysGameOfLife<C, R>\<close> of
  \<^verbatim>\<open>include/conways_game_of_life/board.hpp\<close>. The template parameters \<open>C\<close> and
  \<open>R\<close> are explicit arguments of every operation. The two vectors that
  \<^verbatim>\<open>grid1_\<close> and \<^verbatim>\<open>grid2_\<close> own are fields of the engine state, and the pointers
  \<^verbatim>\<open>current_grid_\<close> and \<^verbatim>\<open>next_grid_\<close> are references that name one of the two, so
  that aliasing of the current and the next grid is visible in the model. A data member
  \<^verbatim>\<open>name_\<close> of the class is the field \<open>name_m\<close> of the record, since an
  identifier cannot end with an underscore here.
  An access of a vector outside its bounds (undefined behaviour in C++) is the error
  value \<open>OutOfRange\<close>. The C++ \<^verbatim>\<open>int\<close> has 32 bits. The constructor is where a
  product of the dimensions is first computed, and there it is computed as the machine
  does, with wrap-around (\<open>int_mul\<close>); an engine exists only if that product did not
  overflow, and every other value the code computes lies between \<open>-1\<close> and the number of
  cells, so that \<open>int\<close> is exact for it.
\<close>

subsection \<open>Data\<close>

text \<open>The enumeration of the source; its first enumerator \<open>ON\<close> has the value zero.\<close>

datatype CellState = ON | OFF

text \<open>What a shared pointer of the engine points to: one of the two owned vectors.\<close>

datatype grid_ref = Grid1 | Grid2

text \<open>
  The ways in which a call can fail to return normally: an access of a vector outside
  its bounds, \<^verbatim>\<open>std::length_error\<close>, which the constructor of \<^verbatim>\<open>std::vector\<close> throws
  for a negative size, and a signed overflow (undefined behaviour) whose wrapped result
  is not negative.
\<close>

datatype error = OutOfRange | LengthError | IntOverflow

record engine =
  size_m :: "int \<times> int"
  grid1_m :: "CellState list"
  grid2_m :: "CellState list"
  grid_m :: bool
  current_grid_m :: grid_ref
  next_grid_m :: grid_ref
  pause_m :: bool

subsection \<open>Memory access\<close>

definition deref :: "engine \<Rightarrow> grid_ref \<Rightarrow> CellState list" where
  "deref s p = (case p of Grid1 \<Rightarrow> grid1_m s | Grid2 \<Rightarrow> grid2_m s)"

definition store :: "grid_ref \<Rightarrow> CellState list \<Rightarrow> engine \<Rightarrow> engine" where
  "store p g s = (case p of Grid1 \<Rightarrow> s\<lparr>grid1_m := g\<rparr> | Grid2 \<Rightarrow> s\<lparr>grid2_m := g\<rparr>)"

text \<open>\<^verbatim>\<open>(*p)[i]\<close> as an rvalue.\<close>

definition read_cell :: "engine \<Rightarrow> grid_ref \<Rightarrow> int \<Rightarrow> error + CellState" where
  "read_cell s p i =
     (if 0 \<le> i \<and> i < int (length (deref s p)) then Inr (deref s p ! nat i)
      else Inl OutOfRange)"

text \<open>\<^verbatim>\<open>(*p)[i] = v\<close>.\<close>

definition write_cell :: "engine \<Rightarrow> grid_ref \<Rightarrow> int \<Rightarrow> CellState \<Rightarrow> error + engine" where
  "write_cell s p i v =
     (if 0 \<le> i \<and> i < int (length (deref s p)) then Inr (store p ((deref s p)[nat i := v]) s)
      else Inl OutOfRange)"

text \<open>
  Modelled from the spec: \<^verbatim>\<open>convert_indices\<close> is declared in
  \<^verbatim>\<open>conways_game_of_life/util.hpp\<close>, which is not among the sources. The specification
  gives the flat index of the cell \<open>(x, y)\<close> of a grid with \<open>C\<close> columns as
  \<open>x + y * C\<close>.
\<close>

definition convert_indices :: "int \<Rightarrow> int \<Rightarrow> int \<Rightarrow> int" where
  "convert_indices x y cols = x + y * cols"

subsection \<open>Accessors and mutators\<close>

text \<open>\<^verbatim>\<open>getSize\<close> is a const member: it returns the pair and the engine as it was.\<close>

definition getSize :: "engine \<Rightarrow> (int \<times> int) \<times> engine" where
  "getSize s = (size_m s, s)"

definition getGrid :: "engine \<Rightarrow> CellState list" where
  "getGrid s = deref s (current_grid_m s)"

definition togglePause :: "engine \<Rightarrow> engine" where
  "togglePause s = s\<lparr>pause_m := \<not> pause_m s\<rparr>"

definition setCell :: "int \<Rightarrow> engine \<Rightarrow> int \<Rightarrow> int \<Rightarrow> error + engine" where
  "setCell C s x y = (let index = convert_indices x y C in write_cell s (current_grid_m s) index ON)"

definition unsetCell :: "int \<Rightarrow> engine \<Rightarrow> int \<Rightarrow> int \<Rightarrow> error + engine" where
  "unsetCell C s x y = (let index = convert_indices x y C in write_cell s (current_grid_m s) index OFF)"

text \<open>The loop of \<^verbatim>\<open>clear\<close>, from the counter \<open>i\<close> on.\<close>

function clear_loop :: "int \<Rightarrow> int \<Rightarrow> engine \<Rightarrow> int \<Rightarrow> error + engine" where
  "clear_loop C R s i =
     (if i < C * R then
        (case write_cell s Grid1 i OFF of
           Inl e \<Rightarrow> Inl e
         | Inr s1 \<Rightarrow>
             (case write_cell s1 Grid2 i OFF of
                Inl e \<Rightarrow> Inl e
              | Inr s2 \<Rightarrow> clear_loop C R s2 (i + 1)))
      else Inr s)"
  by pat_completeness auto
termination
  by (relation "measure (\<lambda>(C, R, s, i). nat (C * R - i))") auto

definition clear :: "int \<Rightarrow> int \<Rightarrow> engine \<Rightarrow> error + engine" where
  "clear C R s = clear_loop C R s 0"

text \<open>
  The largest \<^verbatim>\<open>int\<close>, and the product of two \<^verbatim>\<open>int\<close> values as the machine computes
  it: the 32 low bits of the product, read in two's complement.
\<close>

definition INT_MAX :: int where
  "INT_MAX = 2147483647"

definition int_mul :: "int \<Rightarrow> int \<Rightarrow> int" where
  "int_mul a b = (a * b + 2147483648) mod 4294967296 - 2147483648"

text \<open>
  The constructor. The size \<^verbatim>\<open>C*R\<close> of the two vectors is an \<^verbatim>\<open>int\<close> product.
  \<^verbatim>\<open>std::vector<CellState>(C*R)\<close> throws for a negative size, which is also what a
  product that overflows and wraps to a negative value gives; a product that overflows
  and wraps to a value that is not negative is reported as the overflow it is. Otherwise
  the vector value-initialises its elements, which for the enumeration is the enumerator
  of value zero, \<open>ON\<close>, and \<^verbatim>\<open>clear\<close> then runs.
\<close>

definition ConwaysGameOfLife :: "int \<Rightarrow> int \<Rightarrow> error + engine" where
  "ConwaysGameOfLife C R =
     (let n = int_mul C R in
      if n < 0 then Inl LengthError
      else if n \<noteq> C * R then Inl IntOverflow
      else
        (let g = False in
         clear C R
           \<lparr>size_m = (C, R),
            grid1_m = replicate (nat n) ON,
            grid2_m = replicate (nat n) ON,
            grid_m = g,
            current_grid_m = (if g then Grid1 else Grid2),
            next_grid_m = (if g then Grid2 else Grid1),
            pause_m = True\<rparr>))"

subsection \<open>Counting the neighbours\<close>

text \<open>The inner loop of \<^verbatim>\<open>countAliveNeighbors\<close>, from the offset \<open>y_off\<close> on.\<close>

function count_y_loop ::
  "int \<Rightarrow> int \<Rightarrow> engine \<Rightarrow> int \<Rightarrow> int \<Rightarrow> int \<Rightarrow> int \<Rightarrow> int \<Rightarrow> error + int" where
  "count_y_loop C R s x_off neighbor_x y y_off alive =
     (if y_off \<le> 1 then
        (let neighbor_y = y + y_off;
             neighbor_y = (if y + y_off < 0 then R - 1 else neighbor_y);
             neighbor_y = (if y + y_off \<ge> R then 0 else neighbor_y)
         in if x_off = 0 \<and> y_off = 0 then
              count_y_loop C R s x_off neighbor_x y (y_off + 1) alive
            else
              (let neighbor_index = convert_indices neighbor_x neighbor_y C in
               case read_cell s (current_grid_m s) neighbor_index of
                 Inl e \<Rightarrow> Inl e
               | Inr c \<Rightarrow>
                   count_y_loop C R s x_off neighbor_x y (y_off + 1)
                     (if c = ON then alive + 1 else alive)))
      else Inr alive)"
  by pat_completeness auto
termination
  by (relation "measure (\<lambda>(C, R, s, x_off, neighbor_x, y, y_off, alive). nat (2 - y_off))") auto

text \<open>The outer loop, from the offset \<open>x_off\<close> on.\<close>

function count_x_loop ::
  "int \<Rightarrow> int \<Rightarrow> engine \<Rightarrow> int \<Rightarrow> int \<Rightarrow> int \<Rightarrow> int \<Rightarrow> error + int" where
  "count_x_loop C R s x y x_off alive =
     (if x_off \<le> 1 then
        (let neighbor_x = x + x_off;
             neighbor_x = (if x + x_off < 0 then C - 1 else neighbor_x);
             neighbor_x = (if x + x_off \<ge> C then 0 else neighbor_x)
         in case count_y_loop C R s x_off neighbor_x y (- 1) alive of
              Inl e \<Rightarrow> Inl e
            | Inr alive' \<Rightarrow> count_x_loop C R s x y (x_off + 1) alive')
      else Inr alive)"
  by pat_completeness auto
termination
  by (relation "measure (\<lambda>(C, R, s, x, y, x_off, alive). nat (2 - x_off))") auto

definition countAliveNeighbors :: "int \<Rightarrow> int \<Rightarrow> engine \<Rightarrow> int \<Rightarrow> int \<Rightarrow> error + int" where
  "countAliveNeighbors C R s x y = count_x_loop C R s x y (- 1) 0"

subsection \<open>The update\<close>

text \<open>
  The body of the two loops of \<^verbatim>\<open>update\<close> at the cell \<open>(x, y)\<close>: the copy of the
  current state, then the birth rule or the death rule.
\<close>

definition update_cell :: "int \<Rightarrow> int \<Rightarrow> engine \<Rightarrow> int \<Rightarrow> int \<Rightarrow> error + engine" where
  "update_cell C R s x y =
     (let index = convert_indices x y C in
      case countAliveNeighbors C R s x y of
        Inl e \<Rightarrow> Inl e
      | Inr alive \<Rightarrow>
          (case read_cell s (current_grid_m s) index of
             Inl e \<Rightarrow> Inl e
           | Inr c \<Rightarrow>
               (case write_cell s (next_grid_m s) index c of
                  Inl e \<Rightarrow> Inl e
                | Inr s1 \<Rightarrow>
                    (case read_cell s1 (current_grid_m s1) index of
                       Inl e \<Rightarrow> Inl e
                     | Inr c1 \<Rightarrow>
                         if c1 = OFF then
                           (if alive = 3 then write_cell s1 (next_grid_m s1) index ON
                            else Inr s1)
                         else if c1 = ON then
                           (if alive \<le> 1 \<or> alive \<ge> 4 then write_cell s1 (next_grid_m s1) index OFF
                            else Inr s1)
                         else Inr s1))))"

function update_y_loop :: "int \<Rightarrow> int \<Rightarrow> engine \<Rightarrow> int \<Rightarrow> int \<Rightarrow> error + engine" where
  "update_y_loop C R s x y =
     (if y < R then
        (case update_cell C R s x y of
           Inl e \<Rightarrow> Inl e
         | Inr s1 \<Rightarrow> update_y_loop C R s1 x (y + 1))
      else Inr s)"
  by pat_completeness auto
termination
  by (relation "measure (\<lambda>(C, R, s, x, y). nat (R - y))") auto

function update_x_loop :: "int \<Rightarrow> int \<Rightarrow> engine \<Rightarrow> int \<Rightarrow> error + engine" where
  "update_x_loop C R s x =
     (if x < C then
        (case update_y_loop C R s x 0 of
           Inl e \<Rightarrow> Inl e
         | Inr s1 \<Rightarrow> update_x_loop C R s1 (x + 1))
      else Inr s)"
  by pat_completeness auto
termination
  by (relation "measure (\<lambda>(C, R, s, x). nat (C - x))") auto

definition update :: "int \<Rightarrow> int \<Rightarrow> engine \<Rightarrow> error + engine" where
  "update C R s =
     (if pause_m s then Inr s
      else
        (case update_x_loop C R s 0 of
           Inl e \<Rightarrow> Inl e
         | Inr s1 \<Rightarrow>
             (let s2 = s1\<lparr>grid_m := \<not> grid_m s1\<rparr>;
                  s3 = s2\<lparr>current_grid_m := (if grid_m s2 then Grid1 else Grid2)\<rparr>
              in Inr (s3\<lparr>next_grid_m := (if grid_m s3 then Grid2 else Grid1)\<rparr>))))"

text \<open>\<open>n\<close> successive calls of \<^verbatim>\<open>update\<close>.\<close>

fun updates :: "int \<Rightarrow> int \<Rightarrow> nat \<Rightarrow> engine \<Rightarrow> error + engine" where
  "updates C R 0 s = Inr s"
| "updates C R (Suc n) s =
     (case update C R s of Inl e \<Rightarrow> Inl e | Inr s1 \<Rightarrow> updates C R n s1)"

section \<open>The rules and the invariant\<close>

text \<open>
  What holds of an engine between two calls: positive dimensions, recorded in \<open>size_m\<close>,
  two vectors of \<open>C * R\<close> cells, and the two role pointers set from the flag \<open>grid_m\<close>
  as the constructor and \<^verbatim>\<open>update\<close> set them, so that they name different vectors.
\<close>

definition engine_inv :: "int \<Rightarrow> int \<Rightarrow> engine \<Rightarrow> bool" where
  "engine_inv C R s \<longleftrightarrow>
     0 < C \<and> 0 < R \<and> size_m s = (C, R) \<and>
     length (grid1_m s) = nat (C * R) \<and> length (grid2_m s) = nat (C * R) \<and>
     current_grid_m s = (if grid_m s then Grid1 else Grid2) \<and>
     next_grid_m s = (if grid_m s then Grid2 else Grid1)"

text \<open>
  The rules as the specification words them. The eight offsets of the neighbourhood, the
  cell of the torus at a coordinate pair (each coordinate taken modulo the dimension), the
  number of live cells among the eight neighbours, and the rule for a cell whose state is
  \<open>c\<close> and whose live-neighbour count is \<open>n\<close>: the state is copied, except that a dead cell
  with three live neighbours is born and a live cell with at most one or at least four
  dies.
\<close>

definition offsets :: "(int \<times> int) list" where
  "offsets = [(- 1, - 1), (- 1, 0), (- 1, 1), (0, - 1), (0, 1), (1, - 1), (1, 0), (1, 1)]"

definition torus_cell :: "int \<Rightarrow> int \<Rightarrow> CellState list \<Rightarrow> int \<Rightarrow> int \<Rightarrow> CellState" where
  "torus_cell C R g x y = g ! nat (x mod C + (y mod R) * C)"

definition torus_count :: "int \<Rightarrow> int \<Rightarrow> CellState list \<Rightarrow> int \<Rightarrow> int \<Rightarrow> int" where
  "torus_count C R g x y =
     (\<Sum>(dx, dy) \<leftarrow> offsets. if torus_cell C R g (x + dx) (y + dy) = ON then 1 else 0)"

definition conway_rule :: "CellState \<Rightarrow> int \<Rightarrow> CellState" where
  "conway_rule c n =
     (case c of OFF \<Rightarrow> if n = 3 then ON else OFF
              | ON \<Rightarrow> if n \<le> 1 \<or> n \<ge> 4 then OFF else ON)"

text \<open>The next generation of a whole grid, cell by cell of the flat vector.\<close>

definition gen_cell :: "int \<Rightarrow> int \<Rightarrow> CellState list \<Rightarrow> nat \<Rightarrow> CellState" where
  "gen_cell C R g i = conway_rule (g ! i) (torus_count C R g (int i mod C) (int i div C))"

definition next_gen :: "int \<Rightarrow> int \<Rightarrow> CellState list \<Rightarrow> CellState list" where
  "next_gen C R g = map (gen_cell C R g) [0..<nat (C * R)]"

text \<open>The exchange of the roles of the two buffers at the end of an update.\<close>

definition swap_roles :: "engine \<Rightarrow> engine" where
  "swap_roles s =
     s\<lparr>grid_m := \<not> grid_m s, current_grid_m := next_grid_m s, next_grid_m := current_grid_m s\<rparr>"

text \<open>
  Observers for the statements below: the cell at \<open>(x, y)\<close> of a flat grid, the grid in
  which every cell is dead, and what \<^verbatim>\<open>setCell\<close> and \<^verbatim>\<open>unsetCell\<close> at \<open>(x, y)\<close> must
  leave alone: every other cell of the current buffer, the whole next buffer, the flags and
  the role pointers.
\<close>

definition cell_at :: "int \<Rightarrow> CellState list \<Rightarrow> int \<Rightarrow> int \<Rightarrow> CellState" where
  "cell_at C g x y = g ! nat (convert_indices x y C)"

definition dead_grid :: "int \<Rightarrow> int \<Rightarrow> CellState list" where
  "dead_grid C R = replicate (nat (C * R)) OFF"

definition frame_cell :: "int \<Rightarrow> int \<Rightarrow> engine \<Rightarrow> engine \<Rightarrow> int \<Rightarrow> int \<Rightarrow> bool" where
  "frame_cell C R s s' x y \<longleftrightarrow>
     (\<forall>x' y'. 0 \<le> x' \<and> x' < C \<and> 0 \<le> y' \<and> y' < R \<and> (x', y') \<noteq> (x, y) \<longrightarrow>
        cell_at C (getGrid s') x' y' = cell_at C (getGrid s) x' y') \<and>
     length (getGrid s') = length (getGrid s) \<and>
     deref s' (next_grid_m s') = deref s (next_grid_m s) \<and>
     pause_m s' = pause_m s \<and> grid_m s' = grid_m s \<and>
     current_grid_m s' = current_grid_m s \<and> next_grid_m s' = next_grid_m s \<and>
     size_m s' = size_m s"

text \<open>
  Patterns. The grid whose live cells are the listed coordinate pairs, the grid moved by
  \<open>(dx, dy)\<close> on the torus, the glider, and the 2 by 2 block whose corner of least
  coordinates is \<open>(bx, by)\<close>.
\<close>

definition grid_of :: "int \<Rightarrow> int \<Rightarrow> (int \<times> int) list \<Rightarrow> CellState list" where
  "grid_of C R cells =
     map (\<lambda>i. if (int i mod C, int i div C) \<in> set cells then ON else OFF) [0..<nat (C * R)]"

definition translate :: "int \<Rightarrow> int \<Rightarrow> int \<Rightarrow> int \<Rightarrow> CellState list \<Rightarrow> CellState list" where
  "translate C R dx dy g =
     map (\<lambda>i. torus_cell C R g (int i mod C - dx) (int i div C - dy)) [0..<nat (C * R)]"

definition glider :: "(int \<times> int) list" where
  "glider = [(1, 0), (2, 1), (0, 2), (1, 2), (2, 2)]"

definition block :: "int \<Rightarrow> int \<Rightarrow> (int \<times> int) list" where
  "block bx by = [(bx, by), (bx + 1, by), (bx, by + 1), (bx + 1, by + 1)]"

text \<open>
  An engine as a caller sets it up: constructed, the listed cells set alive with
  \<^verbatim>\<open>setCell\<close>, then \<^verbatim>\<open>togglePause\<close> to let it run.
\<close>

fun seed :: "int \<Rightarrow> (int \<times> int) list \<Rightarrow> engine \<Rightarrow> error + engine" where
  "seed C [] s = Inr s"
| "seed C ((x, y) # cells) s =
     (case setCell C s x y of Inl e \<Rightarrow> Inl e | Inr s1 \<Rightarrow> seed C cells s1)"

definition seeded_engine :: "int \<Rightarrow> int \<Rightarrow> (int \<times> int) list \<Rightarrow> error + engine" where
  "seeded_engine C R cells =
     (case ConwaysGameOfLife C R of
        Inl e \<Rightarrow> Inl e
      | Inr s \<Rightarrow> (case seed C cells s of Inl e \<Rightarrow> Inl e | Inr s1 \<Rightarrow> Inr (togglePause s1)))"

text \<open>
  The engines of the examples: the 1 by 1 engine whose cell is alive, a 3 by 3 engine
  whose middle row is alive and whose next buffer holds stale cells, and the engines
  seeded with the glider and with a block.
\<close>

definition single_engine :: engine where
  "single_engine =
     \<lparr>size_m = (1, 1), grid1_m = [OFF], grid2_m = [ON], grid_m = False,
      current_grid_m = Grid2, next_grid_m = Grid1, pause_m = False\<rparr>"

definition line_engine :: engine where
  "line_engine =
     \<lparr>size_m = (3, 3),
      grid1_m = [ON, OFF, ON, OFF, ON, OFF, ON, OFF, ON],
      grid2_m = [OFF, OFF, OFF, ON, ON, ON, OFF, OFF, OFF],
      grid_m = False, current_grid_m = Grid2, next_grid_m = Grid1, pause_m = False\<rparr>"

definition glider_engine :: engine where
  "glider_engine =
     \<lparr>size_m = (8, 8), grid1_m = dead_grid 8 8, grid2_m = grid_of 8 8 glider, grid_m = False,
      current_grid_m = Grid2, next_grid_m = Grid1, pause_m = False\<rparr>"

definition block_engine :: engine where
  "block_engine =
     \<lparr>size_m = (10, 10), grid1_m = dead_grid 10 10, grid2_m = grid_of 10 10 (block 4 4), grid_m = False,
      current_grid_m = Grid2, next_grid_m = Grid1, pause_m = False\<rparr>"

section \<open>The code computes the rules\<close>

declare clear_loop.simps [simp del] count_y_loop.simps [simp del] count_x_loop.simps [simp del]
  update_y_loop.simps [simp del] update_x_loop.simps [simp del]

subsection \<open>Indices and wrapping\<close>

lemma index_in_range:
  fixes x y C R :: int
  assumes "0 \<le> x" "x < C" "0 \<le> y" "y < R"
  shows "0 \<le> x + y * C" "x + y * C < C * R"
proof -
  from assms have "0 \<le> y * C" by simp
  with assms show "0 \<le> x + y * C" by simp
  from assms have "y + 1 \<le> R" "0 \<le> C" by simp_all
  then have "(y + 1) * C \<le> R * C" by (rule mult_right_mono)
  with assms show "x + y * C < C * R" by (simp add: algebra_simps)
qed

lemma wrap_is_mod:
  fixes n k :: int
  assumes "0 < n" "- 1 \<le> k" "k \<le> n"
  shows "(if k \<ge> n then 0 else if k < 0 then n - 1 else k) = k mod n"
proof (cases "k = n")
  case True
  then show ?thesis by simp
next
  case False
  show ?thesis
  proof (cases "k < 0")
    case True
    with assms have "k = - 1" by simp
    with assms show ?thesis by (simp add: zmod_minus1)
  next
    case False
    with \<open>k \<noteq> n\<close> assms show ?thesis by simp
  qed
qed

subsection \<open>The neighbour count\<close>

lemma read_cell_ok:
  assumes "length (deref s p) = nat (C * R)" "0 \<le> x" "x < C" "0 \<le> y" "y < R"
  shows "read_cell s p (convert_indices x y C) = Inr (deref s p ! nat (x + y * C))"
  using index_in_range [OF assms(2-5)] assms(1) by (simp add: read_cell_def convert_indices_def)

lemma count_y_loop_step:
  assumes len: "length (deref s (current_grid_m s)) = nat (C * R)"
    and R: "0 < R" and nx: "0 \<le> nx" "nx < C" and y: "0 \<le> y" "y < R"
    and d: "- 1 \<le> d" "d \<le> 1"
  shows "count_y_loop C R s x_off nx y d a =
    count_y_loop C R s x_off nx y (d + 1)
      (a + (if x_off = 0 \<and> d = 0 then 0
            else if deref s (current_grid_m s) ! nat (nx + ((y + d) mod R) * C) = ON then 1 else 0))"
proof -
  have w: "(if y + d \<ge> R then 0 else if y + d < 0 then R - 1 else y + d) = (y + d) mod R"
    using R y d by (intro wrap_is_mod) auto
  have r: "read_cell s (current_grid_m s) (convert_indices nx ((y + d) mod R) C) =
      Inr (deref s (current_grid_m s) ! nat (nx + ((y + d) mod R) * C))"
    using R by (intro read_cell_ok [OF len nx]) auto
  show ?thesis
    apply (subst count_y_loop.simps)
    apply (simp only: Let_def w r)
    using d apply simp
    done
qed

lemma count_y_loop_eval:
  assumes len: "length (deref s (current_grid_m s)) = nat (C * R)"
    and R: "0 < R" and nx: "0 \<le> nx" "nx < C" and y: "0 \<le> y" "y < R"
  shows "count_y_loop C R s x_off nx y (- 1) a =
    Inr (a + (\<Sum>dy \<leftarrow> [- 1, 0, 1]. if x_off = 0 \<and> dy = 0 then 0
               else if deref s (current_grid_m s) ! nat (nx + ((y + dy) mod R) * C) = ON then 1 else 0))"
  using count_y_loop_step [OF assms, of "- 1"] count_y_loop_step [OF assms, of 0]
    count_y_loop_step [OF assms, of 1]
  by (simp add: count_y_loop.simps [of _ _ _ _ _ _ 2])

lemma count_x_loop_step:
  assumes len: "length (deref s (current_grid_m s)) = nat (C * R)"
    and C: "0 < C" and R: "0 < R" and x: "0 \<le> x" "x < C" and y: "0 \<le> y" "y < R"
    and d: "- 1 \<le> d" "d \<le> 1"
  shows "count_x_loop C R s x y d a =
    count_x_loop C R s x y (d + 1)
      (a + (\<Sum>dy \<leftarrow> [- 1, 0, 1]. if d = 0 \<and> dy = 0 then 0
               else if deref s (current_grid_m s) ! nat ((x + d) mod C + ((y + dy) mod R) * C) = ON
                    then 1 else 0))"
proof -
  have w: "(if x + d \<ge> C then 0 else if x + d < 0 then C - 1 else x + d) = (x + d) mod C"
    using C x d by (intro wrap_is_mod) auto
  have nx: "0 \<le> (x + d) mod C" "(x + d) mod C < C"
    using C by auto
  show ?thesis
    apply (subst count_x_loop.simps)
    apply (simp only: Let_def w count_y_loop_eval [OF len R nx y])
    using d apply simp
    done
qed

lemma countAliveNeighbors_eval:
  assumes len: "length (deref s (current_grid_m s)) = nat (C * R)"
    and C: "0 < C" and R: "0 < R" and x: "0 \<le> x" "x < C" and y: "0 \<le> y" "y < R"
  shows "countAliveNeighbors C R s x y = Inr (torus_count C R (deref s (current_grid_m s)) x y)"
  using count_x_loop_step [OF assms, of "- 1"] count_x_loop_step [OF assms, of 0]
    count_x_loop_step [OF assms, of 1]
  by (simp add: countAliveNeighbors_def count_x_loop.simps [of _ _ _ _ _ 2]
      torus_count_def offsets_def torus_cell_def)

subsection \<open>Reading and writing the two vectors\<close>

lemma deref_store [simp]: "deref (store p g s) q = (if q = p then g else deref s q)"
  by (cases p; cases q) (simp_all add: deref_def store_def)

lemma store_store [simp]: "store p g (store p g' s) = store p g s"
  by (cases p) (simp_all add: store_def)

lemma store_deref [simp]: "store p (deref s p) s = s"
  by (cases p) (simp_all add: store_def deref_def)

lemma store_fields [simp]:
  "current_grid_m (store p g s) = current_grid_m s"
  "next_grid_m (store p g s) = next_grid_m s"
  "grid_m (store p g s) = grid_m s"
  "pause_m (store p g s) = pause_m s"
  "size_m (store p g s) = size_m s"
  by (cases p; simp add: store_def)+

lemma engine_inv_lengths:
  "engine_inv C R s \<Longrightarrow> length (deref s p) = nat (C * R)"
  by (cases p) (simp_all add: engine_inv_def deref_def)

lemma engine_inv_distinct:
  "engine_inv C R s \<Longrightarrow> next_grid_m s \<noteq> current_grid_m s"
  by (simp add: engine_inv_def)

lemma engine_inv_store:
  "engine_inv C R s \<Longrightarrow> length g = nat (C * R) \<Longrightarrow> engine_inv C R (store p g s)"
  by (cases p) (simp_all add: engine_inv_def store_def)

subsection \<open>One cell, one column, the whole grid\<close>

lemma update_cell_eval:
  assumes inv: "engine_inv C R s" and x: "0 \<le> x" "x < C" and y: "0 \<le> y" "y < R"
  shows "update_cell C R s x y =
    Inr (store (next_grid_m s)
          ((deref s (next_grid_m s))[nat (x + y * C) :=
             conway_rule (deref s (current_grid_m s) ! nat (x + y * C))
               (torus_count C R (deref s (current_grid_m s)) x y)]) s)"
proof -
  let ?cur = "deref s (current_grid_m s)"
  let ?i = "x + y * C"
  from inv have C: "0 < C" and R: "0 < R" by (simp_all add: engine_inv_def)
  note len = engine_inv_lengths [OF inv]
  note ne = engine_inv_distinct [OF inv]
  have cnt: "countAliveNeighbors C R s x y = Inr (torus_count C R ?cur x y)"
    by (rule countAliveNeighbors_eval [OF len C R x y])
  have ix: "0 \<le> ?i" "?i < int (length (deref s (next_grid_m s)))"
    "?i < int (length (deref s (current_grid_m s)))"
    using index_in_range [OF x y] by (simp_all add: len)
  show ?thesis
    using ix ne
    by (cases "?cur ! nat ?i")
      (simp_all add: update_cell_def Let_def cnt read_cell_def write_cell_def convert_indices_def
        conway_rule_def)
qed

lemma index_mod_div:
  fixes x y C :: int
  assumes "0 \<le> x" "x < C" "0 \<le> y"
  shows "int (nat (x + y * C)) mod C = x" "int (nat (x + y * C)) div C = y"
proof -
  from assms have "0 \<le> y * C" by simp
  with assms have eq: "int (nat (x + y * C)) = x + y * C" by simp
  from assms show "int (nat (x + y * C)) mod C = x" unfolding eq by simp
  from assms show "int (nat (x + y * C)) div C = y" unfolding eq by simp
qed

lemma index_unique:
  fixes C :: int
  assumes "0 \<le> x" "x < C" "0 \<le> y" "int i mod C = x" "int i div C = y"
  shows "i = nat (x + y * C)"
proof -
  have "int i = int i mod C + int i div C * C" by simp
  with assms show ?thesis by simp
qed

lemma div_less_rows:
  fixes C R :: int
  assumes "0 < C" "i < nat (C * R)"
  shows "int i div C < R"
proof -
  from assms have lt: "int i < R * C" by (simp add: mult.commute)
  have "int i = int i div C * C + int i mod C" by simp
  moreover from assms have "0 \<le> int i mod C" by simp
  ultimately have le: "int i div C * C \<le> int i" by linarith
  show ?thesis
  proof (rule ccontr)
    assume "\<not> int i div C < R"
    then have "R \<le> int i div C" by simp
    with assms have "R * C \<le> int i div C * C" by (intro mult_right_mono) simp_all
    with le lt show False by simp
  qed
qed

lemma update_y_loop_eval:
  assumes "engine_inv C R s" "0 \<le> x" "x < C" "0 \<le> y" "y \<le> R"
  shows "update_y_loop C R s x y =
    Inr (store (next_grid_m s)
          (map (\<lambda>i. if int i mod C = x \<and> y \<le> int i div C
                     then gen_cell C R (deref s (current_grid_m s)) i
                     else deref s (next_grid_m s) ! i) [0..<nat (C * R)]) s)"
  using assms
proof (induction C R s x y rule: update_y_loop.induct)
  case (1 C R s x y)
  let ?cur = "deref s (current_grid_m s)"
  let ?nxt = "deref s (next_grid_m s)"
  note inv = \<open>engine_inv C R s\<close>
  from inv have C: "0 < C" by (simp add: engine_inv_def)
  note len = engine_inv_lengths [OF inv]
  note ne = engine_inv_distinct [OF inv]
  show ?case
  proof (cases "y < R")
    case False
    with 1 have yR: "y = R" by simp
    have "map (\<lambda>i. if int i mod C = x \<and> y \<le> int i div C then gen_cell C R ?cur i else ?nxt ! i)
            [0..<nat (C * R)] = map (\<lambda>i. ?nxt ! i) [0..<nat (C * R)]"
    proof (intro map_cong refl)
      fix i assume "i \<in> set [0..<nat (C * R)]"
      then have "int i div C < R" using div_less_rows [OF C, of i R] by simp
      then show "(if int i mod C = x \<and> y \<le> int i div C then gen_cell C R ?cur i else ?nxt ! i) =
        ?nxt ! i" by (simp add: yR)
    qed
    also have "\<dots> = ?nxt" using map_nth [of ?nxt] by (simp add: len)
    finally show ?thesis using False by (subst update_y_loop.simps) simp
  next
    case True
    let ?i = "nat (x + y * C)"
    let ?v = "conway_rule (?cur ! ?i) (torus_count C R ?cur x y)"
    let ?s1 = "store (next_grid_m s) (?nxt[?i := ?v]) s"
    have cell: "update_cell C R s x y = Inr ?s1"
      using 1 True by (intro update_cell_eval) auto
    have inv1: "engine_inv C R ?s1"
      using inv len by (intro engine_inv_store) auto
    have "update_y_loop C R ?s1 x (y + 1) =
      Inr (store (next_grid_m ?s1)
          (map (\<lambda>i. if int i mod C = x \<and> y + 1 \<le> int i div C
                     then gen_cell C R (deref ?s1 (current_grid_m ?s1)) i
                     else deref ?s1 (next_grid_m ?s1) ! i) [0..<nat (C * R)]) ?s1)"
      using 1 True inv1 by (intro "1.IH" [OF True cell]) auto
    then have ih: "update_y_loop C R ?s1 x (y + 1) =
      Inr (store (next_grid_m s)
          (map (\<lambda>i. if int i mod C = x \<and> y + 1 \<le> int i div C then gen_cell C R ?cur i
                     else ?nxt[?i := ?v] ! i) [0..<nat (C * R)]) s)"
      using ne ne [symmetric] by (simp cong: if_cong)
    have v: "?v = gen_cell C R ?cur ?i"
      using index_mod_div [of x C y] 1 by (simp add: gen_cell_def)
    have meq: "map (\<lambda>i. if int i mod C = x \<and> y + 1 \<le> int i div C then gen_cell C R ?cur i
                    else ?nxt[?i := ?v] ! i) [0..<nat (C * R)] =
          map (\<lambda>i. if int i mod C = x \<and> y \<le> int i div C then gen_cell C R ?cur i
                    else ?nxt ! i) [0..<nat (C * R)]"
    proof (intro map_cong refl)
      fix i assume "i \<in> set [0..<nat (C * R)]"
      then have i: "i < length ?nxt" by (simp add: len)
      show "(if int i mod C = x \<and> y + 1 \<le> int i div C then gen_cell C R ?cur i
             else ?nxt[?i := ?v] ! i) =
            (if int i mod C = x \<and> y \<le> int i div C then gen_cell C R ?cur i else ?nxt ! i)"
      proof (cases "i = ?i")
        case True
        with i index_mod_div [of x C y] 1 show ?thesis by (simp add: v)
      next
        case False
        with index_unique [of x C y i] 1 have "\<not> (int i mod C = x \<and> int i div C = y)" by auto
        with False show ?thesis by auto
      qed
    qed
    have "update_y_loop C R s x y = update_y_loop C R ?s1 x (y + 1)"
      using True by (subst update_y_loop.simps) (simp add: cell)
    then show ?thesis unfolding ih meq .
  qed
qed

lemma update_x_loop_eval:
  assumes "engine_inv C R s" "0 \<le> x" "x \<le> C"
  shows "update_x_loop C R s x =
    Inr (store (next_grid_m s)
          (map (\<lambda>i. if x \<le> int i mod C then gen_cell C R (deref s (current_grid_m s)) i
                     else deref s (next_grid_m s) ! i) [0..<nat (C * R)]) s)"
  using assms
proof (induction C R s x rule: update_x_loop.induct)
  case (1 C R s x)
  let ?cur = "deref s (current_grid_m s)"
  let ?nxt = "deref s (next_grid_m s)"
  note inv = \<open>engine_inv C R s\<close>
  from inv have C: "0 < C" and R: "0 < R" by (simp_all add: engine_inv_def)
  note len = engine_inv_lengths [OF inv]
  note ne = engine_inv_distinct [OF inv]
  show ?case
  proof (cases "x < C")
    case False
    with 1 have xC: "x = C" by simp
    have "map (\<lambda>i. if x \<le> int i mod C then gen_cell C R ?cur i else ?nxt ! i)
            [0..<nat (C * R)] = map (\<lambda>i. ?nxt ! i) [0..<nat (C * R)]"
    proof (intro map_cong refl)
      fix i
      from C have "int i mod C < C" by simp
      then show "(if x \<le> int i mod C then gen_cell C R ?cur i else ?nxt ! i) = ?nxt ! i"
        by (simp add: xC)
    qed
    also have "\<dots> = ?nxt" using map_nth [of ?nxt] by (simp add: len)
    finally show ?thesis using False by (subst update_x_loop.simps) simp
  next
    case True
    let ?g1 = "map (\<lambda>i. if int i mod C = x \<and> 0 \<le> int i div C then gen_cell C R ?cur i
                         else ?nxt ! i) [0..<nat (C * R)]"
    let ?s1 = "store (next_grid_m s) ?g1 s"
    have col: "update_y_loop C R s x 0 = Inr ?s1"
      using 1 True R by (intro update_y_loop_eval) auto
    have inv1: "engine_inv C R ?s1"
      using inv by (intro engine_inv_store) auto
    have "update_x_loop C R ?s1 (x + 1) =
      Inr (store (next_grid_m ?s1)
          (map (\<lambda>i. if x + 1 \<le> int i mod C then gen_cell C R (deref ?s1 (current_grid_m ?s1)) i
                     else deref ?s1 (next_grid_m ?s1) ! i) [0..<nat (C * R)]) ?s1)"
      using 1 True inv1 by (intro "1.IH" [OF True col]) auto
    then have ih: "update_x_loop C R ?s1 (x + 1) =
      Inr (store (next_grid_m s)
          (map (\<lambda>i. if x + 1 \<le> int i mod C then gen_cell C R ?cur i else ?g1 ! i)
             [0..<nat (C * R)]) s)"
      using ne ne [symmetric] by (simp cong: if_cong)
    have meq: "map (\<lambda>i. if x + 1 \<le> int i mod C then gen_cell C R ?cur i else ?g1 ! i)
                 [0..<nat (C * R)] =
          map (\<lambda>i. if x \<le> int i mod C then gen_cell C R ?cur i else ?nxt ! i) [0..<nat (C * R)]"
    proof (intro map_cong refl)
      fix i assume "i \<in> set [0..<nat (C * R)]"
      then have i: "i < nat (C * R)" by simp
      then have g1: "?g1 ! i = (if int i mod C = x \<and> 0 \<le> int i div C then gen_cell C R ?cur i
                         else ?nxt ! i)" by simp
      from C have "0 \<le> int i div C" by (simp add: pos_imp_zdiv_nonneg_iff)
      then show "(if x + 1 \<le> int i mod C then gen_cell C R ?cur i else ?g1 ! i) =
            (if x \<le> int i mod C then gen_cell C R ?cur i else ?nxt ! i)"
        unfolding g1 by auto
    qed
    have "update_x_loop C R s x = update_x_loop C R ?s1 (x + 1)"
      using True by (subst update_x_loop.simps) (simp add: col)
    then show ?thesis unfolding ih meq .
  qed
qed

lemma update_eval:
  assumes inv: "engine_inv C R s" and run: "\<not> pause_m s"
  shows "update C R s =
    Inr (swap_roles (store (next_grid_m s) (next_gen C R (deref s (current_grid_m s))) s))"
proof -
  from inv have C: "0 < C" by (simp add: engine_inv_def)
  have "map (\<lambda>i. if 0 \<le> int i mod C then gen_cell C R (deref s (current_grid_m s)) i
                  else deref s (next_grid_m s) ! i) [0..<nat (C * R)] =
        next_gen C R (deref s (current_grid_m s))"
    unfolding next_gen_def using C by (intro map_cong refl) simp
  with update_x_loop_eval [OF inv, of 0] C
  have "update_x_loop C R s 0 =
      Inr (store (next_grid_m s) (next_gen C R (deref s (current_grid_m s))) s)"
    by simp
  with inv run show ?thesis
    by (simp add: update_def swap_roles_def Let_def engine_inv_def)
qed

subsection \<open>The role swap and successive updates\<close>

lemma swap_roles_fields [simp]:
  "deref (swap_roles s) p = deref s p"
  "current_grid_m (swap_roles s) = next_grid_m s"
  "next_grid_m (swap_roles s) = current_grid_m s"
  "grid_m (swap_roles s) = (\<not> grid_m s)"
  "pause_m (swap_roles s) = pause_m s"
  "size_m (swap_roles s) = size_m s"
  by (cases p; simp add: swap_roles_def deref_def)+

lemma getGrid_swap_store:
  "getGrid (swap_roles (store (next_grid_m s) g s)) = g"
  by (simp add: getGrid_def)

lemma engine_inv_swap:
  "engine_inv C R s \<Longrightarrow> engine_inv C R (swap_roles s)"
  by (auto simp: engine_inv_def swap_roles_def)

lemma length_next_gen: "length (next_gen C R g) = nat (C * R)"
  by (simp add: next_gen_def)

lemma update_step:
  assumes inv: "engine_inv C R s" and run: "\<not> pause_m s"
  shows "\<exists>s'. update C R s = Inr s' \<and> engine_inv C R s' \<and> \<not> pause_m s' \<and>
    getGrid s' = next_gen C R (getGrid s) \<and>
    current_grid_m s' = next_grid_m s \<and> next_grid_m s' = current_grid_m s \<and>
    grid_m s' = (\<not> grid_m s) \<and> deref s' (next_grid_m s') = getGrid s"
proof -
  let ?s' = "swap_roles (store (next_grid_m s) (next_gen C R (deref s (current_grid_m s))) s)"
  have "engine_inv C R ?s'"
    by (intro engine_inv_swap engine_inv_store inv length_next_gen)
  moreover have "getGrid ?s' = next_gen C R (getGrid s)"
    using getGrid_swap_store by (simp add: getGrid_def)
  moreover have "deref ?s' (next_grid_m ?s') = getGrid s"
    using engine_inv_distinct [OF inv] by (auto simp: getGrid_def)
  ultimately show ?thesis
    using update_eval [OF inv run] run by simp
qed

lemma updates_steps:
  assumes "engine_inv C R s" "\<not> pause_m s"
  shows "\<exists>s'. updates C R n s = Inr s' \<and> engine_inv C R s' \<and> \<not> pause_m s' \<and>
    getGrid s' = (next_gen C R ^^ n) (getGrid s) \<and>
    current_grid_m s' = (if even n then current_grid_m s else next_grid_m s) \<and>
    next_grid_m s' = (if even n then next_grid_m s else current_grid_m s) \<and>
    grid_m s' = (if even n then grid_m s else \<not> grid_m s)"
  using assms
proof (induction n arbitrary: s)
  case 0
  then show ?case by simp
next
  case (Suc n)
  from update_step [OF Suc.prems] obtain s1 where
    s1: "update C R s = Inr s1" "engine_inv C R s1" "\<not> pause_m s1"
      "getGrid s1 = next_gen C R (getGrid s)" "current_grid_m s1 = next_grid_m s"
      "next_grid_m s1 = current_grid_m s" "grid_m s1 = (\<not> grid_m s)"
    by blast
  from Suc.IH [OF s1(2,3)] obtain s' where
    s': "updates C R n s1 = Inr s'" "engine_inv C R s'" "\<not> pause_m s'"
      "getGrid s' = (next_gen C R ^^ n) (getGrid s1)"
      "current_grid_m s' = (if even n then current_grid_m s1 else next_grid_m s1)"
      "next_grid_m s' = (if even n then next_grid_m s1 else current_grid_m s1)"
      "grid_m s' = (if even n then grid_m s1 else \<not> grid_m s1)"
    by blast
  have "updates C R (Suc n) s = Inr s'" by (simp add: s1(1) s'(1))
  moreover have "getGrid s' = (next_gen C R ^^ Suc n) (getGrid s)"
    by (simp add: s'(4) s1(4) funpow_swap1)
  ultimately show ?case using s' s1 by auto
qed

subsection \<open>Clearing\<close>

lemma take_update_replicate:
  assumes "i < length g" "i < n"
  shows "take (Suc i) (g[i := v]) @ replicate (n - Suc i) v = take i g @ replicate (n - i) v"
proof -
  from assms have "n - i = Suc (n - Suc i)" by simp
  with assms show ?thesis by (simp add: take_Suc_conv_app_nth)
qed

lemma clear_loop_eval:
  assumes "length (grid1_m s) = nat (C * R)" "length (grid2_m s) = nat (C * R)" "0 \<le> i" "i \<le> C * R"
  shows "clear_loop C R s i =
    Inr (s\<lparr>grid1_m := take (nat i) (grid1_m s) @ replicate (nat (C * R) - nat i) OFF,
           grid2_m := take (nat i) (grid2_m s) @ replicate (nat (C * R) - nat i) OFF\<rparr>)"
  using assms
proof (induction C R s i rule: clear_loop.induct)
  case (1 C R s i)
  show ?case
  proof (cases "i < C * R")
    case False
    with 1 have "i = C * R" by simp
    with 1 show ?thesis by (subst clear_loop.simps) simp
  next
    case True
    let ?s1 = "s\<lparr>grid1_m := (grid1_m s)[nat i := OFF]\<rparr>"
    let ?s2 = "?s1\<lparr>grid2_m := (grid2_m s)[nat i := OFF]\<rparr>"
    from 1 True have i: "nat i < length (grid1_m s)" "nat i < length (grid2_m s)" by simp_all
    have w1: "write_cell s Grid1 i OFF = Inr ?s1"
      using 1 True by (simp add: write_cell_def deref_def store_def)
    have w2: "write_cell ?s1 Grid2 i OFF = Inr ?s2"
      using 1 True by (simp add: write_cell_def deref_def store_def)
    have n: "nat (i + 1) = Suc (nat i)" using 1 by simp
    have "clear_loop C R ?s2 (i + 1) =
      Inr (?s2\<lparr>grid1_m := take (nat (i + 1)) (grid1_m ?s2) @ replicate (nat (C * R) - nat (i + 1)) OFF,
           grid2_m := take (nat (i + 1)) (grid2_m ?s2) @ replicate (nat (C * R) - nat (i + 1)) OFF\<rparr>)"
      using 1 True by (intro "1.IH" [OF True w1 w2]) simp_all
    also have "take (nat (i + 1)) (grid1_m ?s2) @ replicate (nat (C * R) - nat (i + 1)) OFF =
        take (nat i) (grid1_m s) @ replicate (nat (C * R) - nat i) OFF"
      using i 1 True by (simp add: n take_update_replicate)
    also have "take (nat (i + 1)) (grid2_m ?s2) @ replicate (nat (C * R) - nat (i + 1)) OFF =
        take (nat i) (grid2_m s) @ replicate (nat (C * R) - nat i) OFF"
      using i 1 True by (simp add: n take_update_replicate)
    finally have "clear_loop C R ?s2 (i + 1) =
      Inr (s\<lparr>grid1_m := take (nat i) (grid1_m s) @ replicate (nat (C * R) - nat i) OFF,
           grid2_m := take (nat i) (grid2_m s) @ replicate (nat (C * R) - nat i) OFF\<rparr>)"
      by simp
    moreover have "clear_loop C R s i = clear_loop C R ?s2 (i + 1)"
      using True by (subst clear_loop.simps) (simp add: w1 w2)
    ultimately show ?thesis by simp
  qed
qed

lemma clear_eval:
  assumes "length (grid1_m s) = nat (C * R)" "length (grid2_m s) = nat (C * R)" "0 \<le> C * R"
  shows "clear C R s = Inr (s\<lparr>grid1_m := dead_grid C R, grid2_m := dead_grid C R\<rparr>)"
  using clear_loop_eval [OF assms(1,2), of 0] assms(3) by (simp add: clear_def dead_grid_def)

lemma torus_cell_dead:
  assumes "0 < C" "0 < R"
  shows "torus_cell C R (dead_grid C R) x y = OFF"
proof -
  from assms have "0 \<le> x mod C" "x mod C < C" "0 \<le> y mod R" "y mod R < R" by simp_all
  from index_in_range [OF this] show ?thesis
    by (simp add: torus_cell_def dead_grid_def)
qed

lemma next_gen_dead:
  assumes "0 < C" "0 < R"
  shows "next_gen C R (dead_grid C R) = dead_grid C R"
proof -
  have "torus_count C R (dead_grid C R) x y = 0" for x y
    by (simp add: torus_count_def offsets_def torus_cell_dead [OF assms])
  then have "gen_cell C R (dead_grid C R) i = OFF" if "i < nat (C * R)" for i
    using that by (simp add: gen_cell_def conway_rule_def dead_grid_def)
  then have "next_gen C R (dead_grid C R) = map (\<lambda>i. OFF) [0..<nat (C * R)]"
    unfolding next_gen_def by (intro map_cong refl) simp
  then show ?thesis by (simp add: dead_grid_def map_replicate_const)
qed

lemma engine_inv_cleared:
  "engine_inv C R s \<Longrightarrow> engine_inv C R (s\<lparr>grid1_m := dead_grid C R, grid2_m := dead_grid C R\<rparr>)"
  by (simp add: engine_inv_def dead_grid_def)

lemma int_mul_fits:
  assumes "0 \<le> a * b" "a * b \<le> INT_MAX"
  shows "int_mul a b = a * b"
proof -
  from assms have "0 \<le> a * b + 2147483648" "a * b + 2147483648 < 4294967296"
    by (simp_all add: INT_MAX_def)
  then have "(a * b + 2147483648) mod 4294967296 = a * b + 2147483648"
    by (rule mod_pos_pos_trivial)
  then show ?thesis by (simp add: int_mul_def)
qed

lemma constructor_eval:
  assumes "0 < C" "0 < R" "C * R \<le> INT_MAX"
  shows "ConwaysGameOfLife C R =
    Inr \<lparr>size_m = (C, R), grid1_m = dead_grid C R, grid2_m = dead_grid C R, grid_m = False,
      current_grid_m = Grid2, next_grid_m = Grid1, pause_m = True\<rparr>"
proof -
  from assms have nn: "0 \<le> C * R" by simp
  then have "\<not> C * R < 0" by (simp only: not_less)
  then show ?thesis
    by (simp add: ConwaysGameOfLife_def int_mul_fits [OF nn assms(3)] clear_eval [OF _ _ nn])
qed

lemma constructor_inv:
  assumes "0 < C" "0 < R" "C * R \<le> INT_MAX"
  shows "\<exists>e. ConwaysGameOfLife C R = Inr e \<and> engine_inv C R e"
  using assms by (simp add: constructor_eval engine_inv_def dead_grid_def)

subsection \<open>Writing one cell of the current buffer\<close>

lemma index_inj:
  fixes C :: int
  assumes "0 \<le> x" "x < C" "0 \<le> y" "0 \<le> x'" "x' < C" "0 \<le> y'"
    and eq: "nat (x' + y' * C) = nat (x + y * C)"
  shows "x' = x \<and> y' = y"
proof -
  have "x' = int (nat (x' + y' * C)) mod C" "y' = int (nat (x' + y' * C)) div C"
    using index_mod_div [OF assms(4-6)] by simp_all
  then show ?thesis unfolding eq using index_mod_div [OF assms(1-3)] by simp
qed

lemma write_current_frame:
  assumes inv: "engine_inv C R s" and x: "0 \<le> x" "x < C" and y: "0 \<le> y" "y < R"
  shows "write_cell s (current_grid_m s) (convert_indices x y C) v =
      Inr (store (current_grid_m s) ((getGrid s)[nat (x + y * C) := v]) s)"
    and "cell_at C (getGrid (store (current_grid_m s) ((getGrid s)[nat (x + y * C) := v]) s)) x y = v"
    and "frame_cell C R s (store (current_grid_m s) ((getGrid s)[nat (x + y * C) := v]) s) x y"
proof -
  note len = engine_inv_lengths [OF inv]
  note ne = engine_inv_distinct [OF inv]
  have ix: "0 \<le> x + y * C" "x + y * C < int (length (getGrid s))"
    using index_in_range [OF x y] by (simp_all add: len getGrid_def)
  then show "write_cell s (current_grid_m s) (convert_indices x y C) v =
      Inr (store (current_grid_m s) ((getGrid s)[nat (x + y * C) := v]) s)"
    by (simp add: write_cell_def convert_indices_def getGrid_def)
  from ix show "cell_at C (getGrid (store (current_grid_m s) ((getGrid s)[nat (x + y * C) := v]) s)) x y = v"
    by (simp add: cell_at_def convert_indices_def getGrid_def)
  have "(getGrid s)[nat (x + y * C) := v] ! nat (x' + y' * C) = getGrid s ! nat (x' + y' * C)"
    if "0 \<le> x'" "x' < C" "0 \<le> y'" "(x', y') \<noteq> (x, y)" for x' y'
  proof -
    from index_inj [OF x y(1) that(1-3)] that(4) have "nat (x' + y' * C) \<noteq> nat (x + y * C)"
      by auto
    then show ?thesis by simp
  qed
  then show "frame_cell C R s (store (current_grid_m s) ((getGrid s)[nat (x + y * C) := v]) s) x y"
    using ne by (simp add: frame_cell_def cell_at_def convert_indices_def getGrid_def)
qed

subsection \<open>The invariant holds of every engine the class produces\<close>

lemma setCell_inv:
  assumes "engine_inv C R s" "setCell C s x y = Inr s'"
  shows "engine_inv C R s'"
  using assms engine_inv_lengths [OF assms(1), of "current_grid_m s"]
  by (auto simp: setCell_def write_cell_def Let_def intro!: engine_inv_store split: if_splits)

lemma unsetCell_inv:
  assumes "engine_inv C R s" "unsetCell C s x y = Inr s'"
  shows "engine_inv C R s'"
  using assms engine_inv_lengths [OF assms(1), of "current_grid_m s"]
  by (auto simp: unsetCell_def write_cell_def Let_def intro!: engine_inv_store split: if_splits)

lemma togglePause_inv: "engine_inv C R s \<Longrightarrow> engine_inv C R (togglePause s)"
  by (simp add: engine_inv_def togglePause_def)

lemma clear_inv:
  assumes "engine_inv C R s"
  shows "\<exists>s'. clear C R s = Inr s' \<and> engine_inv C R s'"
proof -
  from assms have "length (grid1_m s) = nat (C * R)" "length (grid2_m s) = nat (C * R)" "0 \<le> C * R"
    by (simp_all add: engine_inv_def)
  from clear_eval [OF this] engine_inv_cleared [OF assms] show ?thesis by simp
qed

lemma update_inv:
  assumes "engine_inv C R s"
  shows "\<exists>s'. update C R s = Inr s' \<and> engine_inv C R s'"
proof (cases "pause_m s")
  case True
  with assms show ?thesis by (simp add: update_def)
next
  case False
  from update_step [OF assms False] show ?thesis by blast
qed

subsection \<open>Moving a grid on the torus\<close>

text \<open>The next generation of a moved grid is the moved next generation.\<close>

lemma torus_index:
  fixes C R :: int
  assumes "0 < C" "0 < R"
  shows "nat (x mod C + y mod R * C) < nat (C * R)"
    and "int (nat (x mod C + y mod R * C)) mod C = x mod C"
    and "int (nat (x mod C + y mod R * C)) div C = y mod R"
proof -
  from assms have r: "0 \<le> x mod C" "x mod C < C" "0 \<le> y mod R" "y mod R < R" by simp_all
  from index_in_range [OF r] show "nat (x mod C + y mod R * C) < nat (C * R)" by simp
  from index_mod_div [OF r(1-3)]
  show "int (nat (x mod C + y mod R * C)) mod C = x mod C"
    and "int (nat (x mod C + y mod R * C)) div C = y mod R" by simp_all
qed

lemma torus_cell_mod: "torus_cell C R g (x mod C) (y mod R) = torus_cell C R g x y"
  by (simp add: torus_cell_def)

lemma torus_count_mod: "torus_count C R g (x mod C) (y mod R) = torus_count C R g x y"
  by (simp add: torus_count_def offsets_def torus_cell_def mod_simps)

lemma torus_cell_translate:
  assumes "0 < C" "0 < R"
  shows "torus_cell C R (translate C R dx dy g) x y = torus_cell C R g (x - dx) (y - dy)"
proof -
  let ?j = "nat (x mod C + y mod R * C)"
  note j = torus_index [OF assms, of x y]
  have "torus_cell C R (translate C R dx dy g) x y = translate C R dx dy g ! ?j"
    by (simp only: torus_cell_def)
  also have "\<dots> = torus_cell C R g (int ?j mod C - dx) (int ?j div C - dy)"
    unfolding translate_def using j(1) by simp
  also have "\<dots> = torus_cell C R g (x mod C - dx) (y mod R - dy)"
    by (simp only: j(2,3))
  also have "\<dots> = torus_cell C R g (x - dx) (y - dy)"
    by (simp add: torus_cell_def mod_simps)
  finally show ?thesis .
qed

lemma torus_count_translate:
  assumes "0 < C" "0 < R"
  shows "torus_count C R (translate C R dx dy g) x y = torus_count C R g (x - dx) (y - dy)"
  by (simp add: torus_count_def offsets_def torus_cell_translate [OF assms] algebra_simps)

lemma gen_cell_torus:
  assumes "0 < C" "i < nat (C * R)"
  shows "gen_cell C R g i =
    conway_rule (torus_cell C R g (int i mod C) (int i div C))
      (torus_count C R g (int i mod C) (int i div C))"
proof -
  from assms have "0 \<le> int i div C" by (simp add: pos_imp_zdiv_nonneg_iff)
  with div_less_rows [OF assms] have "(int i div C) mod R = int i div C" by simp
  then have "torus_cell C R g (int i mod C) (int i div C) = g ! i"
    by (simp add: torus_cell_def)
  then show ?thesis by (simp add: gen_cell_def)
qed

lemma torus_cell_next_gen:
  assumes "0 < C" "0 < R"
  shows "torus_cell C R (next_gen C R g) x y =
    conway_rule (torus_cell C R g x y) (torus_count C R g x y)"
proof -
  let ?j = "nat (x mod C + y mod R * C)"
  note j = torus_index [OF assms, of x y]
  have "torus_cell C R (next_gen C R g) x y = gen_cell C R g ?j"
    using j(1) by (simp add: torus_cell_def next_gen_def)
  also have "\<dots> = conway_rule (torus_cell C R g (x mod C) (y mod R))
      (torus_count C R g (x mod C) (y mod R))"
    using gen_cell_torus [OF assms(1) j(1)] by (simp only: j(2,3))
  finally show ?thesis by (simp only: torus_cell_mod torus_count_mod)
qed

lemma next_gen_translate:
  assumes "0 < C" "0 < R"
  shows "next_gen C R (translate C R dx dy g) = translate C R dx dy (next_gen C R g)"
  unfolding next_gen_def [of C R "translate C R dx dy g"] translate_def [of C R dx dy "next_gen C R g"]
proof (intro map_cong refl)
  fix i assume "i \<in> set [0..<nat (C * R)]"
  then have i: "i < nat (C * R)" by simp
  show "gen_cell C R (translate C R dx dy g) i =
    torus_cell C R (next_gen C R g) (int i mod C - dx) (int i div C - dy)"
    by (simp only: gen_cell_torus [OF assms(1) i] torus_cell_translate [OF assms]
        torus_count_translate [OF assms] torus_cell_next_gen [OF assms])
qed

lemma translate_translate:
  assumes "0 < C" "0 < R"
  shows "translate C R a b (translate C R c d g) = translate C R (a + c) (b + d) g"
  unfolding translate_def [of C R a b] translate_def [of C R "a + c"]
  by (intro map_cong refl) (simp add: torus_cell_translate [OF assms] algebra_simps)

lemma funpow_next_gen_translate:
  assumes "0 < C" "0 < R"
  shows "(next_gen C R ^^ n) (translate C R dx dy g) = translate C R dx dy ((next_gen C R ^^ n) g)"
  by (induction n) (simp_all add: next_gen_translate [OF assms])

subsection \<open>The glider and the block\<close>

lemma line_engine_inv: "engine_inv 3 3 line_engine"
  by (simp add: engine_inv_def line_engine_def)

lemma glider_engine_inv: "engine_inv 8 8 glider_engine"
  by (simp add: engine_inv_def glider_engine_def dead_grid_def grid_of_def)

lemma block_engine_inv: "engine_inv 10 10 block_engine"
  by (simp add: engine_inv_def block_engine_def dead_grid_def grid_of_def)

lemma length_grid_of: "length (grid_of C R cells) = nat (C * R)"
  by (simp add: grid_of_def)

lemma glider_1: "next_gen 8 8 (grid_of 8 8 glider) = grid_of 8 8 [(0, 1), (2, 1), (1, 2), (2, 2), (1, 3)]"
  by code_simp

lemma glider_2: "next_gen 8 8 (grid_of 8 8 [(0, 1), (2, 1), (1, 2), (2, 2), (1, 3)]) =
    grid_of 8 8 [(2, 1), (0, 2), (2, 2), (1, 3), (2, 3)]"
  by code_simp

lemma glider_3: "next_gen 8 8 (grid_of 8 8 [(2, 1), (0, 2), (2, 2), (1, 3), (2, 3)]) =
    grid_of 8 8 [(1, 1), (2, 2), (3, 2), (1, 3), (2, 3)]"
  by code_simp

lemma glider_4: "next_gen 8 8 (grid_of 8 8 [(1, 1), (2, 2), (3, 2), (1, 3), (2, 3)]) =
    grid_of 8 8 [(2, 1), (3, 2), (1, 3), (2, 3), (3, 3)]"
  by code_simp

lemma glider_moved: "translate 8 8 1 1 (grid_of 8 8 glider) =
    grid_of 8 8 [(2, 1), (3, 2), (1, 3), (2, 3), (3, 3)]"
  by code_simp

lemma glider_unmoved: "translate 8 8 0 0 (grid_of 8 8 glider) = grid_of 8 8 glider"
  by code_simp

lemma mod_pred:
  fixes x n :: int
  assumes "0 \<le> x" "x < n"
  shows "(x - 1) mod n = (if x = 0 then n - 1 else x - 1)"
  using assms by (simp add: zmod_minus1)

lemma mod_succ:
  fixes x n :: int
  assumes "0 \<le> x" "x < n"
  shows "(x + 1) mod n = (if x = n - 1 then 0 else x + 1)"
  using assms by simp

lemma block_1d:
  fixes x bx :: int
  assumes "0 \<le> x" "x < 10" "0 \<le> bx" "bx \<le> 8"
  shows "((x + 0) mod 10 \<in> {bx, bx + 1} \<longrightarrow>
          ((x + - 1) mod 10 \<in> {bx, bx + 1}) \<noteq> ((x + 1) mod 10 \<in> {bx, bx + 1})) \<and>
         ((x + 0) mod 10 \<notin> {bx, bx + 1} \<longrightarrow>
          \<not> ((x + - 1) mod 10 \<in> {bx, bx + 1} \<and> (x + 1) mod 10 \<in> {bx, bx + 1}))"
  using assms by (simp add: mod_pred mod_succ)

lemma block_rule:
  fixes a b :: "int \<Rightarrow> bool"
  assumes "a 0 \<longrightarrow> a (- 1) \<noteq> a 1" "\<not> a 0 \<longrightarrow> \<not> (a (- 1) \<and> a 1)"
    and "b 0 \<longrightarrow> b (- 1) \<noteq> b 1" "\<not> b 0 \<longrightarrow> \<not> (b (- 1) \<and> b 1)"
  shows "conway_rule (if a 0 \<and> b 0 then ON else OFF)
      (\<Sum>(dx, dy) \<leftarrow> offsets. if a dx \<and> b dy then 1 else 0) =
    (if a 0 \<and> b 0 then ON else OFF)"
  using assms
  by (cases "a 0"; cases "a 1"; cases "a (- 1)"; cases "b 0"; cases "b 1"; cases "b (- 1)")
    (simp_all add: offsets_def conway_rule_def)

lemma torus_cell_grid_of:
  assumes "0 < C" "0 < R"
  shows "torus_cell C R (grid_of C R cells) x y =
    (if (x mod C, y mod R) \<in> set cells then ON else OFF)"
proof -
  from assms have r: "0 \<le> x mod C" "x mod C < C" "0 \<le> y mod R" "y mod R < R" by simp_all
  from index_in_range [OF r] have "nat (x mod C + y mod R * C) < nat (C * R)" by simp
  then show ?thesis
    using index_mod_div [OF r(1-3)] by (simp add: torus_cell_def grid_of_def)
qed

lemma if_on_iff: "((if P then ON else OFF) = ON) = P"
  by simp

lemma mem_block: "(x, y) \<in> set (block bx by) \<longleftrightarrow> x \<in> {bx, bx + 1} \<and> y \<in> {by, by + 1}"
  by (auto simp: block_def)

lemma block_still:
  assumes "0 \<le> bx" "bx \<le> 8" "0 \<le> by" "by \<le> 8"
  shows "next_gen 10 10 (grid_of 10 10 (block bx by)) = grid_of 10 10 (block bx by)"
proof -
  let ?g = "grid_of 10 10 (block bx by)"
  have "gen_cell 10 10 ?g i = (if (int i mod 10, int i div 10) \<in> set (block bx by) then ON else OFF)"
    if "i < nat (10 * 10)" for i
  proof -
    let ?x = "int i mod 10" and ?y = "int i div 10"
    from that have xy: "0 \<le> ?x" "?x < 10" "0 \<le> ?y" "?y < 10" by simp_all
    let ?a = "\<lambda>d. (?x + d) mod 10 \<in> {bx, bx + 1}"
    let ?b = "\<lambda>d. (?y + d) mod 10 \<in> {by, by + 1}"
    have gi: "?g ! i = (if ?a 0 \<and> ?b 0 then ON else OFF)"
      using that xy by (simp add: grid_of_def mem_block)
    have tc: "torus_count 10 10 ?g ?x ?y = (\<Sum>(dx, dy) \<leftarrow> offsets. if ?a dx \<and> ?b dy then 1 else 0)"
      by (simp add: torus_count_def torus_cell_grid_of mem_block if_on_iff)
    from block_1d [OF xy(1,2) assms(1,2)] block_1d [OF xy(3,4) assms(3,4)]
    have "conway_rule (if ?a 0 \<and> ?b 0 then ON else OFF)
        (\<Sum>(dx, dy) \<leftarrow> offsets. if ?a dx \<and> ?b dy then 1 else 0) =
      (if ?a 0 \<and> ?b 0 then ON else OFF)"
      by (intro block_rule) blast+
    then show ?thesis
      unfolding gen_cell_def gi tc using xy by (simp add: mem_block)
  qed
  then have "map (gen_cell 10 10 ?g) [0..<nat (10 * 10)] =
    map (\<lambda>i. if (int i mod 10, int i div 10) \<in> set (block bx by) then ON else OFF)
      [0..<nat (10 * 10)]"
    by (intro map_cong refl) (simp only: set_upt atLeastLessThan_iff)
  then show ?thesis by (simp only: next_gen_def grid_of_def)
qed

text \<open>The engines of the examples are what the calls of a caller produce.\<close>

lemma glider_engine_seeded: "seeded_engine 8 8 glider = Inr glider_engine"
  by code_simp

lemma block_engine_seeded: "seeded_engine 10 10 (block 4 4) = Inr block_engine"
  by code_simp

text \<open>
  The code run on the glider engine, loop by loop: after four updates the second vector,
  current again, holds the glider one cell further down and to the right.
\<close>

lemma glider_engine_run:
  "updates 8 8 4 glider_engine =
     Inr (glider_engine
       \<lparr>grid1_m := grid_of 8 8 [(1, 1), (2, 2), (3, 2), (1, 3), (2, 3)],
        grid2_m := grid_of 8 8 [(2, 1), (3, 2), (1, 3), (2, 3), (3, 3)]\<rparr>)"
  by code_simp

section \<open>The generation rule\<close>

text \<open>
  C1: for an engine that satisfies the invariant and is not paused, and a cell \<open>(x, y)\<close>
  in range, \<^verbatim>\<open>update\<close> returns, the buffer that was next at entry is the current one
  afterwards, the count the code computes is the number of live cells among the eight
  neighbours on the torus, and the state written for the cell follows the rules: a dead
  cell becomes alive exactly when the count is 3, a live cell becomes dead exactly when
  the count is at most 1 or at least 4, and in every other case the state is the one
  before.
\<close>

theorem update_applies_rules:
  assumes "engine_inv C R s" "\<not> pause_m s" "0 \<le> x" "x < C" "0 \<le> y" "y < R"
  shows "\<exists>s'. update C R s = Inr s' \<and> current_grid_m s' = next_grid_m s \<and>
    countAliveNeighbors C R s x y = Inr (torus_count C R (getGrid s) x y) \<and>
    (let c = cell_at C (getGrid s) x y;
         n = torus_count C R (getGrid s) x y;
         c' = cell_at C (deref s' (next_grid_m s)) x y
     in (c = OFF \<longrightarrow> (c' = ON \<longleftrightarrow> n = 3)) \<and>
        (c = ON \<longrightarrow> (c' = OFF \<longleftrightarrow> n \<le> 1 \<or> 4 \<le> n)) \<and>
        (\<not> (c = OFF \<and> n = 3) \<and> \<not> (c = ON \<and> (n \<le> 1 \<or> 4 \<le> n)) \<longrightarrow> c' = c))"
proof -
  note inv = assms(1)
  from inv have C: "0 < C" and R: "0 < R" by (simp_all add: engine_inv_def)
  let ?i = "nat (x + y * C)"
  from update_step [OF assms(1,2)] obtain s' where
    s': "update C R s = Inr s'" "getGrid s' = next_gen C R (getGrid s)"
      "current_grid_m s' = next_grid_m s"
    by blast
  have i: "?i < nat (C * R)" using index_in_range [OF assms(3-6)] by simp
  have "cell_at C (deref s' (next_grid_m s)) x y = next_gen C R (getGrid s) ! ?i"
    using s'(2,3) by (simp add: cell_at_def convert_indices_def getGrid_def)
  also have "\<dots> = gen_cell C R (getGrid s) ?i"
    using i by (simp add: next_gen_def)
  also have "\<dots> = conway_rule (cell_at C (getGrid s) x y) (torus_count C R (getGrid s) x y)"
    using index_mod_div [OF assms(3,4,5)]
    by (simp add: gen_cell_def cell_at_def convert_indices_def)
  finally have c': "cell_at C (deref s' (next_grid_m s)) x y =
    conway_rule (cell_at C (getGrid s) x y) (torus_count C R (getGrid s) x y)" .
  have cnt: "countAliveNeighbors C R s x y = Inr (torus_count C R (getGrid s) x y)"
    unfolding getGrid_def
    by (rule countAliveNeighbors_eval [OF engine_inv_lengths [OF inv] C R assms(3-6)])
  show ?thesis
    using s'(1,3) cnt c'
    by (cases "cell_at C (getGrid s) x y") (auto simp: Let_def conway_rule_def)
qed

theorem update_applies_rules_witness:
  "engine_inv 3 3 line_engine \<and> \<not> pause_m line_engine \<and>
   cell_at 3 (getGrid line_engine) 0 0 = OFF \<and>
   countAliveNeighbors 3 3 line_engine 0 0 = Inr 3 \<and>
   (\<exists>s'. update 3 3 line_engine = Inr s' \<and>
      cell_at 3 (deref s' (next_grid_m line_engine)) 0 0 = ON)"
proof -
  have run: "\<not> pause_m line_engine" by (simp add: line_engine_def)
  have c: "cell_at 3 (getGrid line_engine) 0 0 = OFF"
    by (simp add: cell_at_def convert_indices_def getGrid_def deref_def line_engine_def)
  have n: "torus_count 3 3 (getGrid line_engine) 0 0 = 3"
    by (simp add: torus_count_def offsets_def torus_cell_def getGrid_def deref_def line_engine_def)
  from update_applies_rules [OF line_engine_inv run, of 0 0] c n run line_engine_inv
  show ?thesis by (auto simp: Let_def)
qed

section \<open>Pause\<close>

text \<open>
  C2: if the paused flag is set, \<^verbatim>\<open>update\<close> returns at once: the engine after the call
  is the engine before it, so no cell of either buffer changes and the roles of the two
  buffers are not swapped.
\<close>

theorem update_paused_noop:
  "pause_m s \<Longrightarrow> update C R s = Inr s"
  by (simp add: update_def)

theorem update_paused_noop_witness:
  "pause_m (togglePause line_engine) \<and>
   update 3 3 (togglePause line_engine) = Inr (togglePause line_engine)"
proof -
  have p: "pause_m (togglePause line_engine)"
    by (simp add: togglePause_def line_engine_def)
  from update_paused_noop [OF p, of 3 3] p show ?thesis by simp
qed

section \<open>Clearing and construction\<close>

text \<open>
  C3: \<^verbatim>\<open>clear\<close> makes both buffers the all-dead grid of \<open>C * R\<close> cells, and an
  update of the cleared engine, when it is not paused, leaves the current grid and both
  buffers all dead.
\<close>

theorem clear_then_update_dead:
  assumes "engine_inv C R s"
  shows "clear C R s = Inr (s\<lparr>grid1_m := dead_grid C R, grid2_m := dead_grid C R\<rparr>) \<and>
    length (dead_grid C R) = nat (C * R) \<and> set (dead_grid C R) = {OFF} \<and>
    (\<not> pause_m s \<longrightarrow>
      (\<exists>s'. update C R (s\<lparr>grid1_m := dead_grid C R, grid2_m := dead_grid C R\<rparr>) = Inr s' \<and>
         getGrid s' = dead_grid C R \<and> grid1_m s' = dead_grid C R \<and> grid2_m s' = dead_grid C R))"
proof -
  let ?s' = "s\<lparr>grid1_m := dead_grid C R, grid2_m := dead_grid C R\<rparr>"
  from assms have C: "0 < C" and R: "0 < R" and
    len: "length (grid1_m s) = nat (C * R)" "length (grid2_m s) = nat (C * R)"
    by (simp_all add: engine_inv_def)
  from C R have pos: "0 < C * R" by simp
  have 1: "clear C R s = Inr ?s'" using len pos by (intro clear_eval) simp_all
  have d: "deref ?s' p = dead_grid C R" for p by (cases p) (simp_all add: deref_def)
  have st: "store p (dead_grid C R) ?s' = ?s'" for p by (cases p) (simp_all add: store_def)
  have 2: "update C R ?s' = Inr (swap_roles ?s')" if "\<not> pause_m s"
    using update_eval [OF engine_inv_cleared [OF assms]] that
    by (simp add: d st next_gen_dead [OF C R])
  have 3: "getGrid (swap_roles ?s') = dead_grid C R"
    by (simp add: getGrid_def d)
  have 4: "grid1_m (swap_roles ?s') = dead_grid C R" "grid2_m (swap_roles ?s') = dead_grid C R"
    by (simp_all add: swap_roles_def)
  from pos have 5: "set (dead_grid C R) = {OFF}" "length (dead_grid C R) = nat (C * R)"
    by (simp_all add: dead_grid_def)
  from 1 2 3 4 5 show ?thesis by simp
qed

theorem clear_then_update_dead_witness:
  "engine_inv 3 3 line_engine \<and> \<not> pause_m line_engine \<and>
   clear 3 3 line_engine =
     Inr (line_engine\<lparr>grid1_m := dead_grid 3 3, grid2_m := dead_grid 3 3\<rparr>) \<and>
   set (dead_grid 3 3) = {OFF} \<and>
   (\<exists>s'. update 3 3 (line_engine\<lparr>grid1_m := dead_grid 3 3, grid2_m := dead_grid 3 3\<rparr>) = Inr s' \<and>
      getGrid s' = dead_grid 3 3 \<and> grid1_m s' = dead_grid 3 3 \<and> grid2_m s' = dead_grid 3 3)"
proof -
  have run: "\<not> pause_m line_engine" by (simp add: line_engine_def)
  from clear_then_update_dead [OF line_engine_inv] run line_engine_inv
  show ?thesis by simp
qed

text \<open>
  C4, as stated, fails: positive dimensions are not enough. For \<open>C = R = 46341\<close> the
  \<^verbatim>\<open>int\<close> product of the dimensions overflows and wraps to a negative value, and the
  constructor of the first vector throws: no engine is constructed.
\<close>

theorem constructor_overflow_counterexample:
  "(0::int) < 46341 \<and> int_mul 46341 46341 = - 2147479015 \<and>
   ConwaysGameOfLife 46341 46341 = Inl LengthError"
  by (simp add: ConwaysGameOfLife_def int_mul_def)

text \<open>
  C4, amended: for positive dimensions whose product is an \<^verbatim>\<open>int\<close>, that is at most
  \<open>INT_MAX\<close>, the constructor returns an engine whose two buffers hold \<open>C * R\<close> dead
  cells each and whose paused flag is set; \<^verbatim>\<open>getSize\<close> on it returns the pair
  \<open>(C, R)\<close> and the engine unchanged.
\<close>

theorem constructor_state:
  assumes "0 < C" "0 < R" "C * R \<le> INT_MAX"
  shows "\<exists>e. ConwaysGameOfLife C R = Inr e \<and>
    grid1_m e = replicate (nat (C * R)) OFF \<and> grid2_m e = replicate (nat (C * R)) OFF \<and>
    pause_m e \<and> getSize e = ((C, R), e)"
  by (simp add: constructor_eval [OF assms] getSize_def dead_grid_def)

theorem constructor_state_witness:
  "(0::int) < 3 \<and> (0::int) < 2 \<and> (3::int) * 2 \<le> INT_MAX \<and>
   (\<exists>e. ConwaysGameOfLife 3 2 = Inr e \<and>
      grid1_m e = [OFF, OFF, OFF, OFF, OFF, OFF] \<and> grid2_m e = [OFF, OFF, OFF, OFF, OFF, OFF] \<and>
      pause_m e \<and> getSize e = ((3, 2), e))"
proof -
  have b: "(3::int) * 2 \<le> INT_MAX" by (simp add: INT_MAX_def)
  from constructor_state [of 3 2, OF _ _ b] b show ?thesis by (simp add: numeral_eq_Suc)
qed

section \<open>Setting and unsetting a cell\<close>

text \<open>
  C5: for a cell \<open>(x, y)\<close> in range, \<^verbatim>\<open>setCell\<close> makes the cell alive and
  \<^verbatim>\<open>unsetCell\<close> makes it dead in the current buffer; every other cell of the current
  buffer, the next buffer, the paused flag and the roles of the buffers are as before.
\<close>

theorem setCell_unsetCell_frame:
  assumes "engine_inv C R s" "0 \<le> x" "x < C" "0 \<le> y" "y < R"
  shows "\<exists>s1 s0. setCell C s x y = Inr s1 \<and> cell_at C (getGrid s1) x y = ON \<and>
      frame_cell C R s s1 x y \<and>
    unsetCell C s x y = Inr s0 \<and> cell_at C (getGrid s0) x y = OFF \<and>
      frame_cell C R s s0 x y"
  using write_current_frame [OF assms, of ON] write_current_frame [OF assms, of OFF]
  by (simp add: setCell_def unsetCell_def)

theorem setCell_unsetCell_frame_witness:
  "engine_inv 3 3 line_engine \<and> (0::int) \<le> 2 \<and> (2::int) < 3 \<and> (0::int) \<le> 1 \<and> (1::int) < 3 \<and>
   (\<exists>s1 s0. setCell 3 line_engine 2 1 = Inr s1 \<and> cell_at 3 (getGrid s1) 2 1 = ON \<and>
      frame_cell 3 3 line_engine s1 2 1 \<and>
      unsetCell 3 line_engine 2 1 = Inr s0 \<and> cell_at 3 (getGrid s0) 2 1 = OFF \<and>
      frame_cell 3 3 line_engine s0 2 1)"
  using setCell_unsetCell_frame [OF line_engine_inv, of 2 1] line_engine_inv by simp

section \<open>Concrete grids\<close>

text \<open>
  C6: on the 1 by 1 grid whose cell is alive, the code counts 8 live neighbours of the
  cell, and one update that is not paused makes the cell dead.
\<close>

theorem single_cell_dies:
  assumes "engine_inv 1 1 s" "\<not> pause_m s" "getGrid s = [ON]"
  shows "countAliveNeighbors 1 1 s 0 0 = Inr 8 \<and>
    (\<exists>s'. update 1 1 s = Inr s' \<and> getGrid s' = [OFF])"
proof -
  have tc: "torus_count 1 1 [ON] 0 0 = 8"
    by (simp add: torus_count_def offsets_def torus_cell_def)
  have "countAliveNeighbors 1 1 s 0 0 = Inr (torus_count 1 1 (getGrid s) 0 0)"
    unfolding getGrid_def
    by (rule countAliveNeighbors_eval [OF engine_inv_lengths [OF assms(1)]]) simp_all
  moreover have "next_gen 1 1 [ON] = [OFF]"
    by (simp add: next_gen_def gen_cell_def tc conway_rule_def)
  ultimately show ?thesis
    using update_step [OF assms(1,2)] by (auto simp: assms(3) tc)
qed

theorem single_cell_dies_witness:
  "engine_inv 1 1 single_engine \<and> \<not> pause_m single_engine \<and> getGrid single_engine = [ON] \<and>
   countAliveNeighbors 1 1 single_engine 0 0 = Inr 8 \<and>
   (\<exists>s'. update 1 1 single_engine = Inr s' \<and> getGrid s' = [OFF])"
proof -
  have inv: "engine_inv 1 1 single_engine" by (simp add: engine_inv_def single_engine_def)
  have run: "\<not> pause_m single_engine" by (simp add: single_engine_def)
  have g: "getGrid single_engine = [ON]" by (simp add: getGrid_def deref_def single_engine_def)
  from single_cell_dies [OF inv run g] inv run g show ?thesis by simp
qed

text \<open>
  C7: on an 8 by 8 engine that is not paused and whose current grid is the glider, placed
  anywhere on the torus, with every other cell dead, four updates return, and the current
  grid is then the grid before them moved by \<open>(1, 1)\<close> on the torus.
\<close>

theorem glider_after_four:
  assumes "engine_inv 8 8 s" "\<not> pause_m s"
    and "getGrid s = translate 8 8 ox oy (grid_of 8 8 glider)"
  shows "\<exists>s'. updates 8 8 4 s = Inr s' \<and> getGrid s' = translate 8 8 1 1 (getGrid s)"
proof -
  let ?g = "grid_of 8 8 glider"
  have four: "(next_gen 8 8 ^^ 4) ?g = translate 8 8 1 1 ?g"
    by (simp add: numeral_eq_Suc funpow_swap1 glider_1 glider_2 glider_3 glider_4 glider_moved)
  have "(next_gen 8 8 ^^ 4) (translate 8 8 ox oy ?g) = translate 8 8 ox oy (translate 8 8 1 1 ?g)"
    by (simp only: funpow_next_gen_translate [of 8 8, simplified] four)
  also have "\<dots> = translate 8 8 1 1 (translate 8 8 ox oy ?g)"
    by (simp add: translate_translate [of 8 8, simplified] add.commute)
  finally show ?thesis
    using updates_steps [OF assms(1,2), of 4] by (auto simp: assms(3))
qed

theorem glider_after_four_witness:
  "engine_inv 8 8 glider_engine \<and> \<not> pause_m glider_engine \<and>
   getGrid glider_engine = translate 8 8 0 0 (grid_of 8 8 glider) \<and>
   (\<exists>s'. updates 8 8 4 glider_engine = Inr s' \<and>
      getGrid s' = translate 8 8 1 1 (getGrid glider_engine))"
proof -
  have run: "\<not> pause_m glider_engine" by (simp add: glider_engine_def)
  have g: "getGrid glider_engine = translate 8 8 0 0 (grid_of 8 8 glider)"
    by (simp add: getGrid_def deref_def glider_engine_def glider_unmoved)
  from glider_after_four [OF glider_engine_inv run g] glider_engine_inv run g
  show ?thesis by simp
qed

text \<open>
  C8: on a 10 by 10 engine that is not paused and whose current grid is a 2 by 2 block,
  anywhere in the grid, with every other cell dead, any number of updates returns and
  leaves the current grid as it was.
\<close>

theorem block_fixed:
  assumes "engine_inv 10 10 s" "\<not> pause_m s" "0 \<le> bx" "bx \<le> 8" "0 \<le> by" "by \<le> 8"
    and "getGrid s = grid_of 10 10 (block bx by)"
  shows "\<exists>s'. updates 10 10 n s = Inr s' \<and> getGrid s' = getGrid s"
proof -
  have "(next_gen 10 10 ^^ n) (grid_of 10 10 (block bx by)) = grid_of 10 10 (block bx by)"
    by (induction n) (simp_all add: block_still [OF assms(3-6)])
  with updates_steps [OF assms(1,2), of n] show ?thesis by (auto simp: assms(7))
qed

theorem block_fixed_witness:
  "engine_inv 10 10 block_engine \<and> \<not> pause_m block_engine \<and>
   (0::int) \<le> 4 \<and> (4::int) \<le> 8 \<and> getGrid block_engine = grid_of 10 10 (block 4 4) \<and>
   (\<exists>s'. updates 10 10 7 block_engine = Inr s' \<and> getGrid s' = getGrid block_engine)"
proof -
  have run: "\<not> pause_m block_engine" by (simp add: block_engine_def)
  have g: "getGrid block_engine = grid_of 10 10 (block 4 4)"
    by (simp add: getGrid_def deref_def block_engine_def)
  from block_fixed [OF block_engine_inv run _ _ _ _ g, of 7] block_engine_inv run g
  show ?thesis by simp
qed

section \<open>The roles of the two buffers\<close>

text \<open>
  C9, as stated, fails: after two updates the buffer that was current before the first is
  the current buffer, not the next one. On a 2 by 1 engine whose current buffer is the
  second vector, two updates end with the second vector current and the first one next.
\<close>

theorem roles_after_two_counterexample:
  "updates 2 1 2
     \<lparr>size_m = (2, 1), grid1_m = [OFF, OFF], grid2_m = [ON, OFF], grid_m = False,
      current_grid_m = Grid2, next_grid_m = Grid1, pause_m = False\<rparr> =
   Inr \<lparr>size_m = (2, 1), grid1_m = [ON, OFF], grid2_m = [ON, OFF], grid_m = False,
      current_grid_m = Grid2, next_grid_m = Grid1, pause_m = False\<rparr> \<and>
   next_grid_m \<lparr>size_m = (2, 1), grid1_m = [ON, OFF], grid2_m = [ON, OFF], grid_m = False,
      current_grid_m = Grid2, next_grid_m = Grid1, pause_m = False\<rparr> \<noteq>
   current_grid_m \<lparr>size_m = (2, 1), grid1_m = [OFF, OFF], grid2_m = [ON, OFF], grid_m = False,
      current_grid_m = Grid2, next_grid_m = Grid1, pause_m = False\<rparr>"
  by code_simp

text \<open>
  C9, amended: after an even number of updates that are not paused, the buffer that was
  current before the first is current again and the one that was next is next again, and
  the two are different buffers.
\<close>

theorem roles_return_after_even:
  assumes "engine_inv C R s" "\<not> pause_m s"
  shows "\<exists>s'. updates C R (2 * n) s = Inr s' \<and>
    current_grid_m s' = current_grid_m s \<and> next_grid_m s' = next_grid_m s \<and>
    grid_m s' = grid_m s \<and> next_grid_m s' \<noteq> current_grid_m s"
  using updates_steps [OF assms, of "2 * n"] engine_inv_distinct [OF assms(1)] by auto

theorem roles_return_after_even_witness:
  "engine_inv 3 3 line_engine \<and> \<not> pause_m line_engine \<and>
   (\<exists>s'. updates 3 3 (2 * 1) line_engine = Inr s' \<and>
      current_grid_m s' = current_grid_m line_engine \<and>
      next_grid_m s' = next_grid_m line_engine \<and> grid_m s' = grid_m line_engine \<and>
      next_grid_m s' \<noteq> current_grid_m line_engine)"
proof -
  have run: "\<not> pause_m line_engine" by (simp add: line_engine_def)
  from roles_return_after_even [OF line_engine_inv run, of 1] line_engine_inv run
  show ?thesis by simp
qed

text \<open>
  C10: an update that is not paused leaves the buffer that is current at entry as it
  was, both when the two loops are done and when the call returns; after the swap that
  buffer has the next role and holds the grid that was current before the call.
\<close>

theorem update_keeps_current_buffer:
  assumes "engine_inv C R s" "\<not> pause_m s"
  shows "\<exists>s1 s'. update_x_loop C R s 0 = Inr s1 \<and> deref s1 (current_grid_m s) = getGrid s \<and>
    update C R s = Inr s' \<and> next_grid_m s' = current_grid_m s \<and>
    deref s' (next_grid_m s') = getGrid s"
proof -
  from assms(1) have C: "0 \<le> C" by (simp add: engine_inv_def)
  from update_step [OF assms] obtain s' where
    "update C R s = Inr s'" "next_grid_m s' = current_grid_m s"
    "deref s' (next_grid_m s') = getGrid s"
    by blast
  moreover from update_x_loop_eval [OF assms(1) order_refl C] obtain g where
    "update_x_loop C R s 0 = Inr (store (next_grid_m s) g s)" by blast
  moreover have "deref (store (next_grid_m s) g s) (current_grid_m s) = getGrid s" for g
    using engine_inv_distinct [OF assms(1)] by (auto simp: getGrid_def)
  ultimately show ?thesis by auto
qed

theorem update_keeps_current_buffer_witness:
  "engine_inv 3 3 line_engine \<and> \<not> pause_m line_engine \<and>
   (\<exists>s1 s'. update_x_loop 3 3 line_engine 0 = Inr s1 \<and>
      deref s1 (current_grid_m line_engine) = getGrid line_engine \<and>
      update 3 3 line_engine = Inr s' \<and> next_grid_m s' = current_grid_m line_engine \<and>
      deref s' (next_grid_m s') = getGrid line_engine)"
proof -
  have run: "\<not> pause_m line_engine" by (simp add: line_engine_def)
  from update_keeps_current_buffer [OF line_engine_inv run] line_engine_inv run
  show ?thesis by simp
qed

end
